theory Spec2Isabelle
  imports Main "HOL-Library.Sublist"
begin

section \<open>Python values, exceptions and library functions used by the client\<close>

text \<open>
  The client works on two kinds of Python sequences that must be kept apart:
  \<open>bytes\<close> (the wire, a list of 8-bit values, here \<^typ>\<open>char\<close>) and \<open>str\<close> (text, a list
  of Unicode code points, here natural numbers). \<open>len\<close> of a \<open>str\<close> counts code points,
  \<open>len\<close> of a \<open>bytes\<close> counts bytes.
\<close>

type_synonym bytes = "char list"
type_synonym str = "nat list"

text \<open>
  What \<open>_parse\<close> hands back is dynamically typed: \<open>None\<close>, a \<open>str\<close>, an \<open>int\<close> or a
  \<open>list\<close> of such values.
\<close>

datatype pyval = PyNone | PyStr str | PyInt int | PyList "pyval list"

text \<open>
  One constructor for each place an exception comes from. The Python class is noted
  beside each; messages are kept as data where the source builds them from data.
\<close>

datatype py_exn =
    SubsectionNotFound        \<comment> \<open>ValueError of \<open>bytes.index\<close>: the terminator is not there\<close>
  | IntValueError bytes       \<comment> \<open>ValueError of \<open>int(...)\<close>: no decimal literal, or too many digits\<close>
  | UnknownPrefix char        \<comment> \<open>ValueError raised in the last branch of \<open>_parse\<close>\<close>
  | RedisError str            \<comment> \<open>RuntimeError raised in the \<open>-\<close> branch of \<open>_parse\<close>\<close>
  | UnicodeDecodeError
  | UnicodeEncodeError
  | IndexError
  | RecursionError
  | ParseFailed py_exn bytes  \<comment> \<open>ValueError raised by \<open>parse_redis_response\<close>: cause and raw data\<close>
  | UnboundLocalError
  | ConnectTimeout            \<comment> \<open>RuntimeError raised for \<open>socket.timeout\<close>\<close>
  | ConnectRefused            \<comment> \<open>RuntimeError raised for \<open>ConnectionRefusedError\<close>\<close>
  | OSError

definition CR :: char where "CR = CHR 0x0D"
definition LF :: char where "LF = CHR 0x0A"
definition crlf :: bytes where "crlf = [CR, LF]"

subsection \<open>Indexing, slicing and searching\<close>

text \<open>\<open>buffer[i]\<close>: a negative index counts from the end, out of range raises.\<close>

definition py_getitem :: "bytes \<Rightarrow> int \<Rightarrow> py_exn + char" where
  "py_getitem buf i =
     (let n = int (length buf); j = (if i < 0 then i + n else i)
      in if 0 \<le> j \<and> j < n then Inr (buf ! nat j) else Inl IndexError)"

text \<open>The clamping of a slice bound or of a search start.\<close>

definition py_clamp :: "nat \<Rightarrow> int \<Rightarrow> nat" where
  "py_clamp n i = (if i < 0 then nat (max 0 (i + int n)) else min n (nat i))"

text \<open>\<open>buffer[a:b]\<close>: never raises.\<close>

definition py_slice :: "bytes \<Rightarrow> int \<Rightarrow> int \<Rightarrow> bytes" where
  "py_slice buf a b =
     (let lo = py_clamp (length buf) a; hi = py_clamp (length buf) b
      in drop lo (take hi buf))"

text \<open>The first position at which \<open>sub\<close> occurs in a list.\<close>

fun find_sub :: "'a list \<Rightarrow> 'a list \<Rightarrow> nat option" where
  "find_sub sub [] = (if sub = [] then Some 0 else None)"
| "find_sub sub (x # xs) =
     (if prefix sub (x # xs) then Some 0 else map_option Suc (find_sub sub xs))"

text \<open>\<open>buffer.index(sub, start)\<close>: the position in the whole buffer, or ValueError.\<close>

definition py_index :: "bytes \<Rightarrow> bytes \<Rightarrow> int \<Rightarrow> py_exn + int" where
  "py_index buf sub start =
     (let s = py_clamp (length buf) start
      in case find_sub sub (drop s buf) of
           None \<Rightarrow> Inl SubsectionNotFound
         | Some k \<Rightarrow> Inr (int (s + k)))"

subsection \<open>\<open>int(bytes)\<close>\<close>

text \<open>
  \<open>int\<close> of a bytes object in base 10: ASCII whitespace around, an optional sign, then
  decimal digits in which single underscores may stand between two digits. Anything
  else is a ValueError. A literal with more digits than the interpreter's limit for
  the conversion of text to \<open>int\<close> is a ValueError as well; the limit is 4300 digits
  unless the interpreter is configured otherwise, which the client does not do. The
  digits are counted without the sign, the underscores and the whitespace, leading
  zeros included.
\<close>

definition max_str_digits :: nat where
  "max_str_digits = 4300"

definition is_space :: "char \<Rightarrow> bool" where
  "is_space c = (c \<in> {CHR 0x20, CHR 0x09, CHR 0x0A, CHR 0x0B, CHR 0x0C, CHR 0x0D})"

definition is_digit :: "char \<Rightarrow> bool" where
  "is_digit c = (48 \<le> (of_char c :: nat) \<and> (of_char c :: nat) \<le> 57)"

definition digit_val :: "char \<Rightarrow> nat" where
  "digit_val c = of_char c - 48"

text \<open>
  The scan of the digits: the number of digits read so far, the value read so far,
  and the bytes to read. It stops at the first byte that is neither a digit nor an
  underscore and returns what is left.
\<close>

fun scan_digits :: "nat \<Rightarrow> nat \<Rightarrow> bytes \<Rightarrow> (nat \<times> nat \<times> bytes) option" where
  "scan_digits count acc [] = Some (count, acc, [])"
| "scan_digits count acc (c # cs) =
     (if is_digit c then scan_digits (Suc count) (10 * acc + digit_val c) cs
      else if c = CHR ''_'' then
        (case cs of
           [] \<Rightarrow> None
         | d # ds \<Rightarrow>
             if is_digit d then scan_digits (Suc count) (10 * acc + digit_val d) ds else None)
      else Some (count, acc, c # cs))"

definition py_int :: "bytes \<Rightarrow> py_exn + int" where
  "py_int bs =
     (let s1 = dropWhile is_space bs;
          neg = (s1 \<noteq> [] \<and> hd s1 = CHR ''-'');
          s2 = (if s1 \<noteq> [] \<and> (hd s1 = CHR ''-'' \<or> hd s1 = CHR ''+'') then tl s1 else s1)
      in case s2 of
           [] \<Rightarrow> Inl (IntValueError bs)
         | d # ds \<Rightarrow>
             if \<not> is_digit d then Inl (IntValueError bs)
             else (case scan_digits 1 (digit_val d) ds of
                     None \<Rightarrow> Inl (IntValueError bs)
                   | Some (count, v, rest) \<Rightarrow>
                       if max_str_digits < count then Inl (IntValueError bs)
                       else if dropWhile is_space rest = []
                       then Inr (if neg then - int v else int v)
                       else Inl (IntValueError bs)))"

subsection \<open>UTF-8\<close>

text \<open>
  \<open>bytes.decode('utf-8')\<close> with the default strict error handling: shortest form only,
  no surrogates, nothing above U+10FFFF; any violation raises UnicodeDecodeError for
  the whole input. \<open>utf8_scan\<close> reads the code points, \<open>None\<close> where the bytes are not
  well-formed.
\<close>

definition is_cont :: "char \<Rightarrow> bool" where
  "is_cont c = (128 \<le> (of_char c :: nat) \<and> (of_char c :: nat) < 192)"

definition cont_val :: "char \<Rightarrow> nat" where
  "cont_val c = of_char c - 128"

fun utf8_scan :: "bytes \<Rightarrow> str option" where
  "utf8_scan [] = Some []"
| "utf8_scan (b # bs) =
     (let n = (of_char b :: nat) in
      if n < 128 then map_option ((#) n) (utf8_scan bs)
      else if 194 \<le> n \<and> n < 224 then
        (case bs of
           c1 # r \<Rightarrow>
             if is_cont c1 then map_option ((#) ((n - 192) * 64 + cont_val c1)) (utf8_scan r)
             else None
         | _ \<Rightarrow> None)
      else if 224 \<le> n \<and> n < 240 then
        (case bs of
           c1 # c2 # r \<Rightarrow>
             (let cp = (n - 224) * 4096 + cont_val c1 * 64 + cont_val c2 in
              if is_cont c1 \<and> is_cont c2 \<and> 2048 \<le> cp \<and> \<not> (55296 \<le> cp \<and> cp < 57344)
              then map_option ((#) cp) (utf8_scan r)
              else None)
         | _ \<Rightarrow> None)
      else if 240 \<le> n \<and> n < 245 then
        (case bs of
           c1 # c2 # c3 # r \<Rightarrow>
             (let cp = (n - 240) * 262144 + cont_val c1 * 4096 + cont_val c2 * 64 + cont_val c3 in
              if is_cont c1 \<and> is_cont c2 \<and> is_cont c3 \<and> 65536 \<le> cp \<and> cp < 1114112
              then map_option ((#) cp) (utf8_scan r)
              else None)
         | _ \<Rightarrow> None)
      else None)"

definition utf8_decode :: "bytes \<Rightarrow> py_exn + str" where
  "utf8_decode bs = (case utf8_scan bs of None \<Rightarrow> Inl UnicodeDecodeError | Some s \<Rightarrow> Inr s)"

text \<open>
  \<open>str.encode('utf-8')\<close>: a surrogate code point raises UnicodeEncodeError. A number
  above U+10FFFF is no code point of a Python \<open>str\<close>; the model raises there as well.
\<close>

definition encode_cp :: "nat \<Rightarrow> bytes option" where
  "encode_cp c =
     (if c < 128 then Some [char_of c]
      else if c < 2048 then Some [char_of (192 + c div 64), char_of (128 + c mod 64)]
      else if 55296 \<le> c \<and> c < 57344 then None
      else if c < 65536 then
        Some [char_of (224 + c div 4096), char_of (128 + c div 64 mod 64), char_of (128 + c mod 64)]
      else if c < 1114112 then
        Some [char_of (240 + c div 262144), char_of (128 + c div 4096 mod 64),
              char_of (128 + c div 64 mod 64), char_of (128 + c mod 64)]
      else None)"

fun utf8_encode :: "str \<Rightarrow> py_exn + bytes" where
  "utf8_encode [] = Inr []"
| "utf8_encode (c # cs) =
     (case encode_cp c of
        None \<Rightarrow> Inl UnicodeEncodeError
      | Some bs \<Rightarrow> (case utf8_encode cs of Inl e \<Rightarrow> Inl e | Inr r \<Rightarrow> Inr (bs @ r)))"

subsection \<open>Text helpers of the encoder\<close>

text \<open>The decimal text of a length, as an f-string renders \<open>len(...)\<close>.\<close>

fun show_nat :: "nat \<Rightarrow> str" where
  "show_nat n = (if n < 10 then [48 + n] else show_nat (n div 10) @ [48 + n mod 10])"

declare show_nat.simps [simp del]

text \<open>
  \<open>str.upper()\<close> maps each code point on its own. On ASCII it turns \<open>a\<close>..\<open>z\<close> into
  \<open>A\<close>..\<open>Z\<close>; above ASCII it follows the Unicode case table, which is not part of the
  repository and is the parameter \<open>uc\<close> (a code point may map to several).
\<close>

definition py_upper :: "(nat \<Rightarrow> str) \<Rightarrow> str \<Rightarrow> str" where
  "py_upper uc s =
     concat (map (\<lambda>c. if c < 128 then [if 97 \<le> c \<and> c \<le> 122 then c - 32 else c] else uc c) s)"

text \<open>Text given as an Isabelle string literal, for examples.\<close>

definition ascii :: "string \<Rightarrow> str" where
  "ascii s = map of_char s"

section \<open>The encoder: \<open>build_resp_command\<close>\<close>

text \<open>
  \<open>parts = [command.upper()] + list(args)\<close>; the header \<open>*<len(parts)>\r\n\<close>; for each part
  \<open>$<len(part)>\r\n<part>\r\n\<close>, where \<open>len\<close> is taken of the \<open>str\<close>; the whole text is
  encoded as UTF-8 at the end. The arguments are \<open>str\<close> values, on which \<open>str(part)\<close> is
  the identity.
\<close>

definition render_part :: "str \<Rightarrow> str" where
  "render_part str_part =
     ascii ''$'' @ show_nat (length str_part) @ ascii [CR, LF] @ str_part @ ascii [CR, LF]"

definition build_protocol :: "(nat \<Rightarrow> str) \<Rightarrow> str \<Rightarrow> str list \<Rightarrow> str" where
  "build_protocol uc command args =
     (let parts = [py_upper uc command] @ args
      in foldl (\<lambda>protocol part. protocol @ render_part part)
           (ascii ''*'' @ show_nat (length parts) @ ascii [CR, LF]) parts)"

definition build_resp_command :: "(nat \<Rightarrow> str) \<Rightarrow> str \<Rightarrow> str list \<Rightarrow> py_exn + bytes" where
  "build_resp_command uc command args = utf8_encode (build_protocol uc command args)"

section \<open>The decoder: \<open>_parse\<close> and \<open>parse_redis_response\<close>\<close>

text \<open>
  The \<open>for _ in range(count)\<close> loop of the array branch: each round parses one element
  at the current index and appends it. \<open>p\<close> is the recursive call \<open>_parse(buffer, .)\<close>.
\<close>

primrec parse_elements ::
  "(int \<Rightarrow> py_exn + pyval \<times> int) \<Rightarrow> nat \<Rightarrow> int \<Rightarrow> pyval list \<Rightarrow> py_exn + pyval list \<times> int"
where
  "parse_elements p 0 idx elements = Inr (elements, idx)"
| "parse_elements p (Suc k) idx elements =
     (case p idx of
        Inl e \<Rightarrow> Inl e
      | Inr (element, idx') \<Rightarrow> parse_elements p k idx' (elements @ [element]))"

text \<open>
  \<open>_parse(buffer, idx)\<close>. The first argument is the number of nested activations of
  \<open>_parse\<close> that the interpreter's recursion limit still allows; a call beyond it raises
  RecursionError. A length field may be negative, so the index can move backwards and
  an array can contain itself: the limit is what ends such a recursion.
\<close>

fun parse :: "nat \<Rightarrow> bytes \<Rightarrow> int \<Rightarrow> py_exn + pyval \<times> int" where
  "parse 0 buffer idx = Inl RecursionError"
| "parse (Suc depth) buffer idx =
     (if idx \<ge> int (length buffer) then Inr (PyNone, idx)
      else
        case py_getitem buffer idx of
          Inl e \<Rightarrow> Inl e
        | Inr prefix' \<Rightarrow>
            let idx = idx + 1 in
            if prefix' = CHR ''+'' then
              (case py_index buffer crlf idx of
                 Inl e \<Rightarrow> Inl e
               | Inr end' \<Rightarrow>
                   (case utf8_decode (py_slice buffer idx end') of
                      Inl e \<Rightarrow> Inl e
                    | Inr content \<Rightarrow> Inr (PyStr content, end' + 2)))
            else if prefix' = CHR ''-'' then
              (case py_index buffer crlf idx of
                 Inl e \<Rightarrow> Inl e
               | Inr end' \<Rightarrow>
                   (case utf8_decode (py_slice buffer idx end') of
                      Inl e \<Rightarrow> Inl e
                    | Inr message \<Rightarrow> Inl (RedisError message)))
            else if prefix' = CHR '':'' then
              (case py_index buffer crlf idx of
                 Inl e \<Rightarrow> Inl e
               | Inr end' \<Rightarrow>
                   (case py_int (py_slice buffer idx end') of
                      Inl e \<Rightarrow> Inl e
                    | Inr num \<Rightarrow> Inr (PyInt num, end' + 2)))
            else if prefix' = CHR ''$'' then
              (case py_index buffer crlf idx of
                 Inl e \<Rightarrow> Inl e
               | Inr end' \<Rightarrow>
                   (case py_int (py_slice buffer idx end') of
                      Inl e \<Rightarrow> Inl e
                    | Inr len \<Rightarrow>
                        let idx = end' + 2 in
                        if len = - 1 then Inr (PyNone, idx)
                        else
                          (case utf8_decode (py_slice buffer idx (idx + len)) of
                             Inl e \<Rightarrow> Inl e
                           | Inr s \<Rightarrow> Inr (PyStr s, idx + len + 2))))
            else if prefix' = CHR ''*'' then
              (case py_index buffer crlf idx of
                 Inl e \<Rightarrow> Inl e
               | Inr end' \<Rightarrow>
                   (case py_int (py_slice buffer idx end') of
                      Inl e \<Rightarrow> Inl e
                    | Inr count \<Rightarrow>
                        (case parse_elements (parse depth buffer) (nat count) (end' + 2) [] of
                           Inl e \<Rightarrow> Inl e
                         | Inr (elements, idx) \<Rightarrow> Inr (PyList elements, idx))))
            else Inl (UnknownPrefix prefix'))"

declare parse.simps [simp del]

text \<open>
  \<open>parse_redis_response\<close> takes a \<open>str\<close> or a \<open>bytes\<close>. Every exception raised inside the
  \<open>try\<close> is replaced by a ValueError "parse failed" that quotes it and the buffer. When
  encoding a \<open>str\<close> argument fails, the handler reads \<open>buffer\<close> before it was bound.
\<close>

datatype response = Str str | Bytes bytes

definition parse_redis_response :: "nat \<Rightarrow> response \<Rightarrow> py_exn + pyval" where
  "parse_redis_response depth response_buffer =
     (case (case response_buffer of Str s \<Rightarrow> utf8_encode s | Bytes b \<Rightarrow> Inr b) of
        Inl e \<Rightarrow> Inl UnboundLocalError
      | Inr buffer \<Rightarrow>
          (case parse depth buffer 0 of
             Inl e \<Rightarrow> Inl (ParseFailed e buffer)
           | Inr (result, _) \<Rightarrow> Inr result))"

section \<open>The transport loop: \<open>send_redis_command\<close>\<close>

text \<open>
  The network is the environment. \<open>connect\<close> and \<open>sendall\<close> either succeed or raise;
  the \<open>k\<close>-th call of \<open>recv\<close> returns a chunk of bytes (the empty chunk when the peer has
  closed the connection) or raises. The two \<open>except\<close> clauses of the function turn a
  timeout and a refused connection into RuntimeErrors; any other socket error passes
  through.
\<close>

datatype sock_exn = SockTimeout | SockRefused | SockOther

datatype recv_event = Chunk bytes | RecvRaises sock_exn

record network =
  connect :: "sock_exn option"
  sendall :: "sock_exn option"
  recv :: "nat \<Rightarrow> recv_event"

definition handle_sock :: "sock_exn \<Rightarrow> py_exn" where
  "handle_sock x =
     (case x of SockTimeout \<Rightarrow> ConnectTimeout | SockRefused \<Rightarrow> ConnectRefused | SockOther \<Rightarrow> OSError)"

text \<open>
  The \<open>while True\<close> loop together with the \<open>return\<close> after it. \<open>k\<close> counts the calls of
  \<open>recv\<close> made so far, \<open>buffer\<close> is what has been accumulated. The loop need not end (a
  peer may keep sending bytes that never parse to the end of the buffer), so the
  result is an option and \<open>None\<close> stands for a loop that never returns.

  The call of \<open>_parse\<close> inside the loop is made directly by \<open>send_redis_command\<close>; the one
  inside \<open>parse_redis_response\<close> is one activation deeper, so the loop's call has one more
  nested activation available. The bare \<open>except\<close> catches every exception of the
  in-loop call.
\<close>

partial_function (option) recv_loop ::
  "nat \<Rightarrow> (nat \<Rightarrow> recv_event) \<Rightarrow> nat \<Rightarrow> bytes \<Rightarrow> (py_exn + pyval) option"
where
  "recv_loop depth rcv k buffer =
     (case rcv k of
        RecvRaises x \<Rightarrow> Some (Inl (handle_sock x))
      | Chunk chunk \<Rightarrow>
          if chunk = [] then Some (parse_redis_response depth (Bytes buffer))
          else
            (case parse (Suc depth) (buffer @ chunk) 0 of
               Inl e \<Rightarrow> recv_loop depth rcv (Suc k) (buffer @ chunk)
             | Inr (result, idx) \<Rightarrow>
                 if idx = int (length (buffer @ chunk))
                 then Some (parse_redis_response depth (Bytes (buffer @ chunk)))
                 else recv_loop depth rcv (Suc k) (buffer @ chunk)))"

definition send_redis_command ::
  "nat \<Rightarrow> (nat \<Rightarrow> str) \<Rightarrow> str \<Rightarrow> str list \<Rightarrow> network \<Rightarrow> (py_exn + pyval) option"
where
  "send_redis_command depth uc command args net =
     (case connect net of
        Some x \<Rightarrow> Some (Inl (handle_sock x))
      | None \<Rightarrow>
          (case build_resp_command uc command args of
             Inl e \<Rightarrow> Some (Inl e)
           | Inr request \<Rightarrow>
               (case sendall net of
                  Some x \<Rightarrow> Some (Inl (handle_sock x))
                | None \<Rightarrow> recv_loop depth (recv net) 0 [])))"

text \<open>
  A peer that delivers the given events, one for each \<open>recv\<close>, and is silent afterwards:
  further calls run into the socket's timeout.
\<close>

definition script :: "recv_event list \<Rightarrow> nat \<Rightarrow> recv_event" where
  "script evs k = (if k < length evs then evs ! k else RecvRaises SockTimeout)"

text \<open>
  A case table for examples: no code point above ASCII has an upper-case form of its
  own.
\<close>

definition uc_unchanged :: "nat \<Rightarrow> str" where
  "uc_unchanged c = [c]"

section \<open>Notions used to state the round trip\<close>

text \<open>The bytes of a decimal length field as the encoder writes it.\<close>

definition digits :: "nat \<Rightarrow> bytes" where
  "digits n = map char_of (show_nat n)"

text \<open>The number that a list of decimal digit code points denotes, read left to right.\<close>

fun dec_val :: "nat \<Rightarrow> nat list \<Rightarrow> nat" where
  "dec_val acc [] = acc"
| "dec_val acc (c # cs) = dec_val (10 * acc + (c - 48)) cs"

text \<open>The bytes of one part on the wire.\<close>

definition wire_part :: "str \<Rightarrow> bytes" where
  "wire_part p = CHR ''$'' # digits (length p) @ crlf @ map char_of p @ crlf"

section \<open>Evaluation on concrete buffers\<close>

lemmas eval_defs = py_getitem_def py_index_def py_clamp_def py_slice_def py_int_def crlf_def
  CR_def LF_def is_space_def is_digit_def digit_val_def is_cont_def cont_val_def utf8_decode_def
  ascii_def parse.simps parse_redis_response_def script_def handle_sock_def max_str_digits_def

lemma parse_elements_unfold:
  "0 < n \<Longrightarrow> parse_elements p n idx els =
     (case p idx of Inl e \<Rightarrow> Inl e
      | Inr (element, idx') \<Rightarrow> parse_elements p (n - 1) idx' (els @ [element]))"
  by (cases n) (auto split: sum.split)

section \<open>Frames at a known place in the buffer\<close>

lemma py_clamp_int: "py_clamp n (int k) = min n k"
  by (simp add: py_clamp_def)

lemma py_getitem_at:
  "i = int (length pre) \<Longrightarrow> py_getitem (pre @ c # rest) i = Inr c"
  by (simp add: py_getitem_def)

lemma py_slice_at:
  "a = int (length pre) \<Longrightarrow> b = a + int (length bs) \<Longrightarrow> py_slice (pre @ bs @ rest) a b = bs"
  unfolding py_slice_def by (simp add: py_clamp_def Let_def)

lemma find_sub_crlf:
  "CR \<notin> set bs \<Longrightarrow> find_sub crlf (bs @ crlf @ rest) = Some (length bs)"
  by (induction bs) (auto simp: crlf_def)

lemma py_index_at:
  assumes "CR \<notin> set bs" "a = int (length pre)"
  shows "py_index (pre @ bs @ crlf @ rest) crlf a = Inr (a + int (length bs))"
  using find_sub_crlf [OF assms(1), of rest] assms(2)
  unfolding py_index_def by (simp add: py_clamp_def Let_def)

text \<open>A frame that starts with a marker byte and a line of text, at any offset.\<close>

lemma line_at:
  assumes "CR \<notin> set bs" and "i = int (length pre)"
  shows "\<not> int (length (pre @ c # bs @ crlf @ rest)) \<le> i"
    and "py_getitem (pre @ c # bs @ crlf @ rest) i = Inr c"
    and "py_index (pre @ c # bs @ crlf @ rest) crlf (i + 1) = Inr (i + 1 + int (length bs))"
    and "py_slice (pre @ c # bs @ crlf @ rest) (i + 1) (i + 1 + int (length bs)) = bs"
proof -
  show "\<not> int (length (pre @ c # bs @ crlf @ rest)) \<le> i"
    using assms(2) by simp
  show "py_getitem (pre @ c # bs @ crlf @ rest) i = Inr c"
    using assms(2) by (rule py_getitem_at)
  have eq: "pre @ c # bs @ crlf @ rest = (pre @ [c]) @ bs @ crlf @ rest"
    by simp
  have len: "i + 1 = int (length (pre @ [c]))"
    using assms(2) by simp
  show "py_index (pre @ c # bs @ crlf @ rest) crlf (i + 1) = Inr (i + 1 + int (length bs))"
    unfolding eq using assms(1) len by (rule py_index_at)
  show "py_slice (pre @ c # bs @ crlf @ rest) (i + 1) (i + 1 + int (length bs)) = bs"
    unfolding eq using len by (rule py_slice_at) simp
qed

lemma parse_error_frame:
  assumes "CR \<notin> set body"
  shows "parse (Suc depth) (CHR ''-'' # body @ crlf @ rest) 0 =
           (case utf8_decode body of Inl e \<Rightarrow> Inl e | Inr message \<Rightarrow> Inl (RedisError message))"
  using line_at [OF assms, of 0 "[]" "CHR ''-''" rest] by (simp add: parse.simps)

lemma parse_simple_frame:
  assumes "CR \<notin> set body"
  shows "parse (Suc depth) (CHR ''+'' # body @ crlf @ rest) 0 =
           (case utf8_decode body of Inl e \<Rightarrow> Inl e
            | Inr content \<Rightarrow> Inr (PyStr content, int (length body) + 3))"
  using line_at [OF assms, of 0 "[]" "CHR ''+''" rest] by (simp add: parse.simps split: sum.split)

lemma parse_bulk_at:
  assumes "CR \<notin> set ds" and "py_int ds = Inr (int (length payload))"
    and "i = int (length pre)"
  shows "parse (Suc depth) (pre @ CHR ''$'' # ds @ crlf @ payload @ rest) i =
           (case utf8_decode payload of Inl e \<Rightarrow> Inl e
            | Inr s \<Rightarrow> Inr (PyStr s, i + int (length ds) + int (length payload) + 5))"
proof -
  let ?buf = "pre @ CHR ''$'' # ds @ crlf @ payload @ rest"
  have eq: "?buf = (pre @ CHR ''$'' # ds @ crlf) @ payload @ rest"
    by simp
  have sl: "py_slice ?buf (i + 1 + int (length ds) + 2)
              (i + 1 + int (length ds) + 2 + int (length payload)) = payload"
    unfolding eq by (rule py_slice_at) (simp_all add: assms(3) crlf_def)
  show ?thesis
    using line_at [OF assms(1) assms(3), of "CHR ''$''" "payload @ rest"] assms(2) sl
    by (simp add: parse.simps split: sum.split)
qed

lemma utf8_decode_Inl: "utf8_decode bs = Inl e \<Longrightarrow> e = UnicodeDecodeError"
  by (simp add: utf8_decode_def split: option.splits)

lemma parse_bulk_frame:
  assumes "CR \<notin> set ds" and "py_int ds = Inr (int (length payload))"
  shows "parse (Suc depth) (CHR ''$'' # ds @ crlf @ payload @ rest) 0 =
           (case utf8_decode payload of Inl e \<Rightarrow> Inl e
            | Inr s \<Rightarrow> Inr (PyStr s, int (length ds) + int (length payload) + 5))"
  using parse_bulk_at [OF assms, of 0 "[]" depth rest] by (simp split: sum.split)

section \<open>Nil and empty bulk strings\<close>

text \<open>
  C9. Decoding \<open>$-1\r\n\<close> yields \<open>None\<close>, the nil bulk string, with consumed offset 5;
  decoding \<open>$0\r\n\r\n\<close> yields the empty string, present and of length zero, with
  offset 6; the two results differ. This holds at every recursion depth that admits
  the call at all.
\<close>

theorem nil_bulk_distinct_from_empty:
  "parse (Suc depth) (''$-1'' @ crlf) 0 = Inr (PyNone, 5)
   \<and> parse (Suc depth) (''$0'' @ crlf @ crlf) 0 = Inr (PyStr [], 6)
   \<and> parse (Suc depth) (''$-1'' @ crlf) 0 \<noteq> parse (Suc depth) (''$0'' @ crlf @ crlf) 0"
  by (simp add: eval_defs)

section \<open>An offset at or past the end of the buffer\<close>

text \<open>
  C6, as the code has it. For every buffer and every offset at or past its end,
  \<open>_parse\<close> returns the pair \<open>(None, offset)\<close>: the value \<open>None\<close> and the offset unchanged.
  There is no outcome of its own for "incomplete"; \<open>None\<close> is also what a nil bulk string
  decodes to.
\<close>

theorem parse_past_end_returns_none:
  "int (length buffer) \<le> idx \<Longrightarrow> parse (Suc depth) buffer idx = Inr (PyNone, idx)"
  by (simp add: parse.simps)

theorem parse_past_end_returns_none_witness:
  "int (length ([] :: bytes)) \<le> 0 \<and> parse (Suc 0) [] 0 = Inr (PyNone, 0)"
  using parse_past_end_returns_none [of "[]" 0 0] by simp

lemma nil_and_end:
  "parse (Suc d) (''$-1'' @ crlf) 5 = Inr (PyNone, 5)
   \<and> parse (Suc d) (''$-1'' @ crlf) 0 = Inr (PyNone, 5)"
  by (simp add: eval_defs)

text \<open>
  The claim as stated fails: on the buffer \<open>$-1\r\n\<close>, the call at offset 5 (the end of
  the buffer) and the successful decode of the nil bulk string at offset 0 return the
  very same pair.
\<close>

theorem past_end_confused_with_nil:
  "parse 1000 (''$-1'' @ crlf) 5 = Inr (PyNone, 5)
   \<and> parse 1000 (''$-1'' @ crlf) 0 = Inr (PyNone, 5)"
  using nil_and_end [of 999] by simp

section \<open>Truncated frames\<close>

text \<open>
  C1, at the failing input. The buffer \<open>*2\r\n$1\r\na\r\n\<close> declares two elements and
  holds one. \<open>_parse\<close> returns the list \<open>['a', None]\<close> with offset 11, the length of the
  buffer: the missing element is filled with \<open>None\<close>. The transport loop, given this
  buffer as the first chunk and the second element as the next chunk, takes the
  response for complete and returns \<open>['a', None]\<close> without reading on.
\<close>

theorem truncated_array_yields_partial_list:
  "parse (Suc (Suc depth)) (''*2'' @ crlf @ ''$1'' @ crlf @ ''a'' @ crlf) 0
     = Inr (PyList [PyStr (ascii ''a''), PyNone], 11)
   \<and> recv_loop (Suc (Suc depth))
       (script [Chunk (''*2'' @ crlf @ ''$1'' @ crlf @ ''a'' @ crlf),
                Chunk (''$1'' @ crlf @ ''b'' @ crlf)]) 0 []
     = Some (Inr (PyList [PyStr (ascii ''a''), PyNone]))"
  by (simp add: recv_loop.simps parse_elements_unfold eval_defs)

text \<open>
  C5, at the failing input. The buffer \<open>$5\r\nab\<close> declares five payload bytes and holds
  two. \<open>_parse\<close> returns the shortened payload \<open>'ab'\<close> with offset 11, past the end of the
  buffer, and \<open>parse_redis_response\<close> returns \<open>'ab'\<close> as the decoded value. The receive
  loop reads on after such a buffer, since the offset differs from the length; when
  the peer then closes the connection, \<open>'ab'\<close> is returned as the response.
\<close>

theorem truncated_bulk_yields_short_payload:
  "parse (Suc depth) (''$5'' @ crlf @ ''ab'') 0 = Inr (PyStr (ascii ''ab''), 11)
   \<and> parse_redis_response (Suc depth) (Bytes (''$5'' @ crlf @ ''ab'')) = Inr (PyStr (ascii ''ab''))
   \<and> recv_loop (Suc depth) (script [Chunk (''$5'' @ crlf @ ''ab''), Chunk []]) 0 []
       = Some (Inr (PyStr (ascii ''ab'')))"
  by (simp add: recv_loop.simps eval_defs)

section \<open>The length prefix written by the encoder\<close>

text \<open>
  C4, at the failing input. For the command \<open>GET\<close> with the one-character argument
  U+00E9, whose UTF-8 form has two bytes, the encoder writes the length prefix \<open>$1\<close>
  (the character count) in front of a payload of two bytes.
\<close>

theorem length_prefix_counts_characters:
  "build_resp_command uc (ascii ''GET'') [[233]]
     = Inr (''*2'' @ crlf @ ''$3'' @ crlf @ ''GET'' @ crlf
            @ ''$1'' @ crlf @ [CHR 0xC3, CHR 0xA9] @ crlf)"
  by (simp add: eval_defs build_resp_command_def build_protocol_def render_part_def py_upper_def
      show_nat.simps encode_cp_def char_of_def bit_0)

section \<open>The receive loop\<close>

text \<open>
  Once the connection is made and the request is sent, \<open>send_redis_command\<close> is its
  receive loop, started with no call of \<open>recv\<close> made and an empty buffer.
\<close>

lemma send_redis_command_connected:
  "connect net = None \<Longrightarrow> build_resp_command uc command args = Inr request \<Longrightarrow>
   sendall net = None \<Longrightarrow>
   send_redis_command depth uc command args net = recv_loop depth (recv net) 0 []"
  by (simp add: send_redis_command_def)

text \<open>
  C7, as the code has it. Whenever the decode attempt on the accumulated buffer raises
  an exception, whatever it is (an unknown marker byte and a length field that is not
  a number included), the loop drops the exception and goes on with the next \<open>recv\<close>,
  keeping the accumulated buffer.
\<close>

theorem recv_loop_continues_after_exception:
  "rcv k = Chunk chunk \<Longrightarrow> chunk \<noteq> [] \<Longrightarrow> parse (Suc depth) (buffer @ chunk) 0 = Inl e
   \<Longrightarrow> recv_loop depth rcv k buffer = recv_loop depth rcv (Suc k) (buffer @ chunk)"
  by (subst recv_loop.simps) (simp add: parse.simps)

theorem recv_loop_continues_after_exception_witness:
  "script [Chunk ''?'', Chunk []] 0 = Chunk ''?'' \<and> ''?'' \<noteq> ([] :: bytes)
   \<and> parse (Suc 0) ([] @ ''?'') 0 = Inl (UnknownPrefix CHR ''?'')
   \<and> recv_loop 0 (script [Chunk ''?'', Chunk []]) 0 []
       = recv_loop 0 (script [Chunk ''?'', Chunk []]) (Suc 0) ([] @ ''?'')"
proof -
  have h1: "script [Chunk ''?'', Chunk []] 0 = Chunk ''?''"
    by (simp add: script_def)
  have h2: "''?'' \<noteq> ([] :: bytes)"
    by simp
  have h3: "parse (Suc 0) ([] @ ''?'') 0 = Inl (UnknownPrefix CHR ''?'')"
    by (simp add: eval_defs)
  from recv_loop_continues_after_exception
         [of "script [Chunk ''?'', Chunk []]" 0 "''?''" 0 "[]" "UnknownPrefix CHR ''?''"]
       h1 h2 h3
  show ?thesis by blast
qed

lemma bad_marker_then_close:
  "recv_loop (Suc d) (script [Chunk ''?'', Chunk ''x'', Chunk []]) 0 []
     = Some (Inl (ParseFailed (UnknownPrefix CHR ''?'') ''?x''))"
  by (simp add: recv_loop.simps eval_defs)

lemma bad_marker_then_silence:
  "recv_loop d (script [Chunk ''?'']) 0 [] = Some (Inl ConnectTimeout)"
  by (simp add: recv_loop.simps eval_defs)

text \<open>
  The claim as stated fails. A peer sends the unknown marker \<open>?\<close>, then \<open>x\<close>, then closes:
  the failure that is reported quotes the buffer \<open>?x\<close>, so the loop has read on after the
  bad marker. A peer that sends \<open>?\<close> and then nothing: the loop reads on into the
  timeout, and the bad marker is never reported.
\<close>

theorem recv_loop_reads_on_after_bad_marker:
  "recv_loop 1000 (script [Chunk ''?'', Chunk ''x'', Chunk []]) 0 []
     = Some (Inl (ParseFailed (UnknownPrefix CHR ''?'') ''?x''))
   \<and> recv_loop 1000 (script [Chunk ''?'']) 0 [] = Some (Inl ConnectTimeout)"
  using bad_marker_then_close [of 999] bad_marker_then_silence [of 1000] by simp

text \<open>
  C8, as the code has it. When \<open>recv\<close> returns zero bytes, the loop stops and the
  function returns whatever \<open>parse_redis_response\<close> makes of the bytes accumulated so
  far; there is no failure of its own for a closed connection.
\<close>

theorem recv_loop_on_close_parses_buffer:
  "rcv k = Chunk [] \<Longrightarrow>
   recv_loop depth rcv k buffer = Some (parse_redis_response depth (Bytes buffer))"
  by (subst recv_loop.simps) (simp add: parse.simps)

theorem recv_loop_on_close_parses_buffer_witness:
  "script [Chunk ''+OK'', Chunk []] (Suc 0) = Chunk []
   \<and> recv_loop (Suc 0) (script [Chunk ''+OK'', Chunk []]) (Suc 0) ''+OK''
       = Some (Inl (ParseFailed SubsectionNotFound ''+OK''))"
proof -
  have h: "script [Chunk ''+OK'', Chunk []] (Suc 0) = Chunk []"
    by (simp add: script_def)
  from recv_loop_on_close_parses_buffer
         [of "script [Chunk ''+OK'', Chunk []]" "Suc 0" "Suc 0" "''+OK''"] h
  show ?thesis by (simp add: eval_defs)
qed

lemma close_mid_frame:
  "recv_loop (Suc d) (script [Chunk ''+OK'', Chunk []]) 0 []
     = Some (Inl (ParseFailed SubsectionNotFound ''+OK''))"
  by (simp add: recv_loop.simps eval_defs)

text \<open>
  The claim as stated fails. A peer sends \<open>+OK\<close> without the terminator and closes: what
  is reported is the general parse failure of \<open>parse_redis_response\<close>.
\<close>

theorem close_mid_frame_is_parse_failure:
  "recv_loop 1000 (script [Chunk ''+OK'', Chunk []]) 0 []
     = Some (Inl (ParseFailed SubsectionNotFound ''+OK''))"
  using close_mid_frame [of 999] by simp

section \<open>Error frames\<close>

text \<open>
  C2, as the code has it. For every error frame (the marker \<open>-\<close>, a text free of CR
  that is valid UTF-8, the terminator), \<open>_parse\<close> does not return a value: it raises the
  RuntimeError that carries the decoded text, and \<open>parse_redis_response\<close> reports this
  as its parse failure, the ValueError that quotes the cause and the buffer.
\<close>

theorem error_frame_raises:
  assumes "CR \<notin> set body" and "utf8_decode body = Inr message"
  shows "parse (Suc depth) (CHR ''-'' # body @ crlf @ rest) 0 = Inl (RedisError message)
    \<and> parse_redis_response (Suc depth) (Bytes (CHR ''-'' # body @ crlf @ rest))
        = Inl (ParseFailed (RedisError message) (CHR ''-'' # body @ crlf @ rest))"
  using parse_error_frame [OF assms(1), of depth rest] assms(2)
  by (simp add: parse_redis_response_def)

theorem error_frame_raises_witness:
  "CR \<notin> set ''ERR unknown command''
   \<and> utf8_decode ''ERR unknown command'' = Inr (ascii ''ERR unknown command'')
   \<and> parse (Suc 0) (CHR ''-'' # ''ERR unknown command'' @ crlf @ []) 0
       = Inl (RedisError (ascii ''ERR unknown command''))
   \<and> parse_redis_response (Suc 0) (Bytes (CHR ''-'' # ''ERR unknown command'' @ crlf @ []))
       = Inl (ParseFailed (RedisError (ascii ''ERR unknown command''))
               (CHR ''-'' # ''ERR unknown command'' @ crlf @ []))"
proof -
  have h1: "CR \<notin> set ''ERR unknown command''"
    by (simp add: CR_def)
  have h2: "utf8_decode ''ERR unknown command'' = Inr (ascii ''ERR unknown command'')"
    by (simp add: utf8_decode_def ascii_def)
  from error_frame_raises [OF h1 h2, of 0 "[]"] h1 h2 show ?thesis
    by blast
qed

lemma error_frame_example:
  "parse (Suc d) (''-ERR unknown command'' @ crlf) 0 = Inl (RedisError (ascii ''ERR unknown command''))
   \<and> parse_redis_response (Suc d) (Bytes (''-ERR unknown command'' @ crlf))
       = Inl (ParseFailed (RedisError (ascii ''ERR unknown command'')) (''-ERR unknown command'' @ crlf))"
  by (simp add: eval_defs)

text \<open>
  The claim as stated fails at the spec's own example: decoding
  \<open>-ERR unknown command\r\n\<close> returns no value, neither from \<open>_parse\<close> nor from
  \<open>parse_redis_response\<close>, and the public entry point reports a parse failure.
\<close>

theorem error_frame_is_parse_failure:
  "parse 1000 (''-ERR unknown command'' @ crlf) 0 = Inl (RedisError (ascii ''ERR unknown command''))
   \<and> parse_redis_response 1000 (Bytes (''-ERR unknown command'' @ crlf))
       = Inl (ParseFailed (RedisError (ascii ''ERR unknown command''))
               (''-ERR unknown command'' @ crlf))"
  using error_frame_example [of 999] by simp

section \<open>UTF-8: decoding is the inverse of encoding\<close>

text \<open>
  The bytes that \<open>utf8_scan\<close> accepts are exactly the encodings of texts, and it
  returns the text encoded: first the scan of one sequence of each length, then the
  arithmetic of the code point in base 64, then both directions.
\<close>

lemma scan1:
  "(of_char b0 :: nat) < 128 \<Longrightarrow> utf8_scan (b0 # r) = map_option ((#) (of_char b0)) (utf8_scan r)"
  by simp

lemma scan2:
  assumes "(of_char b0 :: nat) = n0" "194 \<le> n0" "n0 < 224"
    and "(of_char b1 :: nat) = n1" "128 \<le> n1" "n1 < 192"
  shows "utf8_scan (b0 # b1 # r) = map_option ((#) ((n0 - 192) * 64 + (n1 - 128))) (utf8_scan r)"
  using assms by (simp add: is_cont_def cont_val_def)

lemma scan3:
  assumes "(of_char b0 :: nat) = n0" "224 \<le> n0" "n0 < 240"
    and "(of_char b1 :: nat) = n1" "128 \<le> n1" "n1 < 192"
    and "(of_char b2 :: nat) = n2" "128 \<le> n2" "n2 < 192"
    and "cp = (n0 - 224) * 4096 + (n1 - 128) * 64 + (n2 - 128)"
    and "2048 \<le> cp" "\<not> (55296 \<le> cp \<and> cp < 57344)"
  shows "utf8_scan (b0 # b1 # b2 # r) = map_option ((#) cp) (utf8_scan r)"
  using assms by (simp add: is_cont_def cont_val_def)

lemma scan4:
  assumes "(of_char b0 :: nat) = n0" "240 \<le> n0" "n0 < 245"
    and "(of_char b1 :: nat) = n1" "128 \<le> n1" "n1 < 192"
    and "(of_char b2 :: nat) = n2" "128 \<le> n2" "n2 < 192"
    and "(of_char b3 :: nat) = n3" "128 \<le> n3" "n3 < 192"
    and "cp = (n0 - 240) * 262144 + (n1 - 128) * 4096 + (n2 - 128) * 64 + (n3 - 128)"
    and "65536 \<le> cp" "cp < 1114112"
  shows "utf8_scan (b0 # b1 # b2 # b3 # r) = map_option ((#) cp) (utf8_scan r)"
  using assms by (simp add: is_cont_def cont_val_def)

lemma of_char_char_of_byte: "n < 256 \<Longrightarrow> (of_char (char_of (n::nat) :: char) :: nat) = n"
  by simp

lemma split4096: "(c::nat) div 4096 * 4096 + c div 64 mod 64 * 64 + c mod 64 = c"
proof -
  define d where "d = c div 64"
  have e: "c div 4096 = d div 64"
    using div_mult2_eq [of c 64 64] by (simp add: d_def)
  have 1: "d div 64 * 64 + d mod 64 = d" by simp
  have 2: "d * 64 + c mod 64 = c" by (simp add: d_def)
  from 1 2 show ?thesis
    unfolding e d_def [symmetric] by linarith
qed

lemma split262144:
  "(c::nat) div 262144 * 262144 + c div 4096 mod 64 * 4096 + c div 64 mod 64 * 64 + c mod 64 = c"
proof -
  define d where "d = c div 64"
  define e where "e = d div 64"
  have e4096: "c div 4096 = e"
    using div_mult2_eq [of c 64 64] by (simp add: d_def e_def)
  have w: "c div 262144 = e div 64"
    using div_mult2_eq [of c 4096 64] by (simp add: e4096)
  have 1: "e div 64 * 64 + e mod 64 = e" by simp
  have 2: "e * 64 + d mod 64 = d" by (simp add: e_def)
  have 3: "d * 64 + c mod 64 = c" by (simp add: d_def)
  from 1 2 3 show ?thesis
    unfolding w e4096 d_def [symmetric] by linarith
qed

lemma scan_encode_cp:
  assumes "encode_cp c = Some cb"
  shows "utf8_scan (cb @ r) = map_option ((#) c) (utf8_scan r)"
proof -
  consider (one) "c < 128"
    | (two) "128 \<le> c" "c < 2048"
    | (three) "2048 \<le> c" "c < 65536" "\<not> (55296 \<le> c \<and> c < 57344)"
    | (four) "65536 \<le> c" "c < 1114112"
    | (bad) "(55296 \<le> c \<and> c < 57344) \<or> 1114112 \<le> c"
    by linarith
  then show ?thesis
  proof cases
    case one
    with assms have cb: "cb = [char_of c]"
      by (simp add: encode_cp_def)
    have "(of_char (char_of c :: char) :: nat) = c"
      using one by simp
    with one scan1 [of "char_of c" r] show ?thesis
      unfolding cb by simp
  next
    case two
    with assms have cb: "cb = [char_of (192 + c div 64), char_of (128 + c mod 64)]"
      by (simp add: encode_cp_def)
    have hi: "c div 64 < 32"
      using two by (intro less_mult_imp_div_less) simp
    have lo: "2 \<le> c div 64"
      using div_le_mono [of 128 c 64] two by simp
    have m: "c mod 64 < 64" by simp
    have v: "(192 + c div 64 - 192) * 64 + (128 + c mod 64 - 128) = c"
      by simp
    have "utf8_scan (char_of (192 + c div 64) # char_of (128 + c mod 64) # r)
            = map_option ((#) ((192 + c div 64 - 192) * 64 + (128 + c mod 64 - 128))) (utf8_scan r)"
    proof (rule scan2)
      show "(of_char (char_of (192 + c div 64) :: char) :: nat) = 192 + c div 64"
        using hi by (intro of_char_char_of_byte) linarith
      show "(of_char (char_of (128 + c mod 64) :: char) :: nat) = 128 + c mod 64"
        using m by (intro of_char_char_of_byte) linarith
    qed (use hi lo m in linarith)+
    then show ?thesis
      unfolding cb v by simp
  next
    case three
    with assms have cb: "cb = [char_of (224 + c div 4096), char_of (128 + c div 64 mod 64),
        char_of (128 + c mod 64)]"
      by (simp add: encode_cp_def)
    have hi: "c div 4096 < 16"
      using three by (intro less_mult_imp_div_less) simp
    have m1: "c div 64 mod 64 < 64" and m2: "c mod 64 < 64" by simp_all
    have v: "c = (224 + c div 4096 - 224) * 4096 + (128 + c div 64 mod 64 - 128) * 64
               + (128 + c mod 64 - 128)"
      using split4096 [of c] by simp
    have "utf8_scan (char_of (224 + c div 4096) # char_of (128 + c div 64 mod 64)
              # char_of (128 + c mod 64) # r) = map_option ((#) c) (utf8_scan r)"
    proof (rule scan3 [OF _ _ _ _ _ _ _ _ _ v])
      show "(of_char (char_of (224 + c div 4096) :: char) :: nat) = 224 + c div 4096"
        using hi by (intro of_char_char_of_byte) linarith
      show "(of_char (char_of (128 + c div 64 mod 64) :: char) :: nat) = 128 + c div 64 mod 64"
        using m1 by (intro of_char_char_of_byte) linarith
      show "(of_char (char_of (128 + c mod 64) :: char) :: nat) = 128 + c mod 64"
        using m2 by (intro of_char_char_of_byte) linarith
    qed (use hi m1 m2 three in linarith)+
    then show ?thesis
      unfolding cb by simp
  next
    case four
    with assms have cb: "cb = [char_of (240 + c div 262144), char_of (128 + c div 4096 mod 64),
        char_of (128 + c div 64 mod 64), char_of (128 + c mod 64)]"
      by (simp add: encode_cp_def)
    have hi: "c div 262144 < 5"
      using four by (intro less_mult_imp_div_less) simp
    have m0: "c div 4096 mod 64 < 64" and m1: "c div 64 mod 64 < 64" and m2: "c mod 64 < 64"
      by simp_all
    have v: "c = (240 + c div 262144 - 240) * 262144 + (128 + c div 4096 mod 64 - 128) * 4096
               + (128 + c div 64 mod 64 - 128) * 64 + (128 + c mod 64 - 128)"
      using split262144 [of c] by simp
    have "utf8_scan (char_of (240 + c div 262144) # char_of (128 + c div 4096 mod 64)
              # char_of (128 + c div 64 mod 64) # char_of (128 + c mod 64) # r)
            = map_option ((#) c) (utf8_scan r)"
    proof (rule scan4 [OF _ _ _ _ _ _ _ _ _ _ _ _ v])
      show "(of_char (char_of (240 + c div 262144) :: char) :: nat) = 240 + c div 262144"
        using hi by (intro of_char_char_of_byte) linarith
      show "(of_char (char_of (128 + c div 4096 mod 64) :: char) :: nat) = 128 + c div 4096 mod 64"
        using m0 by (intro of_char_char_of_byte) linarith
      show "(of_char (char_of (128 + c div 64 mod 64) :: char) :: nat) = 128 + c div 64 mod 64"
        using m1 by (intro of_char_char_of_byte) linarith
      show "(of_char (char_of (128 + c mod 64) :: char) :: nat) = 128 + c mod 64"
        using m2 by (intro of_char_char_of_byte) linarith
    qed (use hi m0 m1 m2 four in linarith)+
    then show ?thesis
      unfolding cb by simp
  next
    case bad
    with assms show ?thesis
      by (auto simp: encode_cp_def split: if_splits)
  qed
qed

lemma utf8_scan_encode:
  "utf8_encode s = Inr bs \<Longrightarrow> utf8_scan bs = Some s"
proof (induction s arbitrary: bs)
  case Nil
  then show ?case by simp
next
  case (Cons c cs)
  from Cons.prems obtain cb r where
    cb: "encode_cp c = Some cb" and r: "utf8_encode cs = Inr r" and bs: "bs = cb @ r"
    by (auto split: option.splits sum.splits)
  from Cons.IH [OF r] scan_encode_cp [OF cb, of r] bs show ?case
    by simp
qed

lemma div_combine: "r < m \<Longrightarrow> (q * m + r) div m = (q::nat)"
  by simp

lemma mod_combine: "r < m \<Longrightarrow> (q * m + r) mod m = (r::nat)"
  by simp

lemma char_of_eq: "n = (of_char b :: nat) \<Longrightarrow> char_of n = b"
  by simp

lemma two_arith:
  fixes n0 n1 :: nat
  assumes "194 \<le> n0" "n0 < 224" "128 \<le> n1" "n1 < 192"
    and cp: "cp = (n0 - 192) * 64 + (n1 - 128)"
  shows "128 \<le> cp" "cp < 2048" "192 + cp div 64 = n0" "128 + cp mod 64 = n1"
proof -
  have y: "n1 - 128 < 64" using assms by linarith
  have d: "cp div 64 = n0 - 192" unfolding cp using y by (rule div_combine)
  have m: "cp mod 64 = n1 - 128" unfolding cp using y by (rule mod_combine)
  show "128 \<le> cp" "cp < 2048" unfolding cp using assms(1-4) by linarith+
  show "192 + cp div 64 = n0" unfolding d using assms(1) by linarith
  show "128 + cp mod 64 = n1" unfolding m using assms(3) by linarith
qed

lemma three_arith:
  fixes n0 n1 n2 :: nat
  assumes "224 \<le> n0" "n0 < 240" "128 \<le> n1" "n1 < 192" "128 \<le> n2" "n2 < 192"
    and cp: "cp = (n0 - 224) * 4096 + (n1 - 128) * 64 + (n2 - 128)"
  shows "cp < 65536" "224 + cp div 4096 = n0" "128 + cp div 64 mod 64 = n1"
    "128 + cp mod 64 = n2"
proof -
  define x y z where "x = n0 - 224" and "y = n1 - 128" and "z = n2 - 128"
  have b: "x < 16" "y < 64" "z < 64"
    using assms(1-6) unfolding x_def y_def z_def by linarith+
  have f0: "cp = x * 4096 + y * 64 + z"
    unfolding cp x_def y_def z_def ..
  have f1: "cp = x * 4096 + (y * 64 + z)" and f2: "cp = (x * 64 + y) * 64 + z"
    unfolding f0 by (simp_all add: algebra_simps)
  have r: "y * 64 + z < 4096" using b by linarith
  have d1: "cp div 4096 = x" unfolding f1 using r by (rule div_combine)
  have d2: "cp div 64 = x * 64 + y" unfolding f2 using b(3) by (rule div_combine)
  have m2: "cp mod 64 = z" unfolding f2 using b(3) by (rule mod_combine)
  have m1: "cp div 64 mod 64 = y" unfolding d2 using b(2) by (rule mod_combine)
  show "cp < 65536" unfolding f1 using b by linarith
  show "224 + cp div 4096 = n0" unfolding d1 x_def using assms(1) by linarith
  show "128 + cp div 64 mod 64 = n1" unfolding m1 y_def using assms(3) by linarith
  show "128 + cp mod 64 = n2" unfolding m2 z_def using assms(5) by linarith
qed

lemma four_arith:
  fixes n0 n1 n2 n3 :: nat
  assumes "240 \<le> n0" "n0 < 245" "128 \<le> n1" "n1 < 192" "128 \<le> n2" "n2 < 192"
    "128 \<le> n3" "n3 < 192"
    and cp: "cp = (n0 - 240) * 262144 + (n1 - 128) * 4096 + (n2 - 128) * 64 + (n3 - 128)"
  shows "240 + cp div 262144 = n0" "128 + cp div 4096 mod 64 = n1"
    "128 + cp div 64 mod 64 = n2" "128 + cp mod 64 = n3"
proof -
  define w x y z where "w = n0 - 240" and "x = n1 - 128" and "y = n2 - 128" and "z = n3 - 128"
  have b: "w < 5" "x < 64" "y < 64" "z < 64"
    using assms(1-8) unfolding w_def x_def y_def z_def by linarith+
  have f0: "cp = w * 262144 + x * 4096 + y * 64 + z"
    unfolding cp w_def x_def y_def z_def ..
  have f1: "cp = w * 262144 + (x * 4096 + y * 64 + z)"
    and f2: "cp = (w * 64 + x) * 4096 + (y * 64 + z)"
    and f3: "cp = ((w * 64 + x) * 64 + y) * 64 + z"
    unfolding f0 by (simp_all add: algebra_simps)
  have r1: "x * 4096 + y * 64 + z < 262144" and r2: "y * 64 + z < 4096"
    using b by linarith+
  have d1: "cp div 262144 = w" unfolding f1 using r1 by (rule div_combine)
  have d2: "cp div 4096 = w * 64 + x" unfolding f2 using r2 by (rule div_combine)
  have d3: "cp div 64 = (w * 64 + x) * 64 + y" unfolding f3 using b(4) by (rule div_combine)
  have m1: "cp div 4096 mod 64 = x" unfolding d2 using b(2) by (rule mod_combine)
  have m2: "cp div 64 mod 64 = y" unfolding d3 using b(3) by (rule mod_combine)
  have m3: "cp mod 64 = z" unfolding f3 using b(4) by (rule mod_combine)
  show "240 + cp div 262144 = n0" unfolding d1 w_def using assms(1) by linarith
  show "128 + cp div 4096 mod 64 = n1" unfolding m1 x_def using assms(3) by linarith
  show "128 + cp div 64 mod 64 = n2" unfolding m2 y_def using assms(5) by linarith
  show "128 + cp mod 64 = n3" unfolding m3 z_def using assms(7) by linarith
qed

lemma encode_cp_two:
  "128 \<le> c \<Longrightarrow> c < 2048 \<Longrightarrow> 192 + c div 64 = (of_char b0 :: nat) \<Longrightarrow>
   128 + c mod 64 = (of_char b1 :: nat) \<Longrightarrow> encode_cp c = Some [b0, b1]"
  by (simp add: encode_cp_def)

lemma encode_cp_three:
  "2048 \<le> c \<Longrightarrow> c < 65536 \<Longrightarrow> \<not> (55296 \<le> c \<and> c < 57344) \<Longrightarrow>
   224 + c div 4096 = (of_char b0 :: nat) \<Longrightarrow> 128 + c div 64 mod 64 = (of_char b1 :: nat) \<Longrightarrow>
   128 + c mod 64 = (of_char b2 :: nat) \<Longrightarrow> encode_cp c = Some [b0, b1, b2]"
  by (simp add: encode_cp_def)

lemma encode_cp_four:
  "65536 \<le> c \<Longrightarrow> c < 1114112 \<Longrightarrow>
   240 + c div 262144 = (of_char b0 :: nat) \<Longrightarrow> 128 + c div 4096 mod 64 = (of_char b1 :: nat) \<Longrightarrow>
   128 + c div 64 mod 64 = (of_char b2 :: nat) \<Longrightarrow> 128 + c mod 64 = (of_char b3 :: nat) \<Longrightarrow>
   encode_cp c = Some [b0, b1, b2, b3]"
  by (simp add: encode_cp_def)

lemma enc1: "(of_char b0 :: nat) < 128 \<Longrightarrow> encode_cp (of_char b0) = Some [b0]"
  by (simp add: encode_cp_def)

lemma utf8_encode_cons:
  "encode_cp c = Some cb \<Longrightarrow> utf8_encode cs = Inr r \<Longrightarrow> utf8_encode (c # cs) = Inr (cb @ r)"
  by simp

lemma is_cont_range: "is_cont c \<Longrightarrow> 128 \<le> (of_char c :: nat) \<and> (of_char c :: nat) < 192"
  by (simp add: is_cont_def)

lemma utf8_encode_scan:
  "utf8_scan bs = Some s \<Longrightarrow> utf8_encode s = Inr bs"
proof (induction "length bs" arbitrary: bs s rule: less_induct)
  case less
  show ?case
  proof (cases bs)
    case Nil
    with less.prems show ?thesis by simp
  next
    case (Cons b bs')
    define n where "n = (of_char b :: nat)"
    consider (one) "n < 128"
      | (two) "194 \<le> n" "n < 224"
      | (three) "224 \<le> n" "n < 240"
      | (four) "240 \<le> n" "n < 245"
      | (bad) "128 \<le> n" "n < 194 \<or> 245 \<le> n"
      by linarith
    then show ?thesis
    proof cases
      case one
      with less.prems Cons obtain s' where s': "utf8_scan bs' = Some s'" and s: "s = n # s'"
        by (auto simp: n_def)
      have "utf8_encode s' = Inr bs'"
        using less.hyps [of bs' s'] s' Cons by simp
      with enc1 [of b] one show ?thesis
        unfolding s n_def Cons by simp
    next
      case two
      with less.prems Cons obtain c1 r s' where bs: "bs' = c1 # r" and c1: "is_cont c1"
        and s': "utf8_scan r = Some s'" and s: "s = ((n - 192) * 64 + cont_val c1) # s'"
        by (auto simp: n_def split: list.splits if_splits)
      have ih: "utf8_encode s' = Inr r"
        using less.hyps [of r s'] s' Cons bs by simp
      note r1 = is_cont_range [OF c1]
      have cpd: "(n - 192) * 64 + cont_val c1 = (n - 192) * 64 + (of_char c1 - 128)"
        by (simp add: cont_val_def)
      note a = two_arith [OF two r1 [THEN conjunct1] r1 [THEN conjunct2] cpd]
      have "encode_cp ((n - 192) * 64 + cont_val c1) = Some [b, c1]"
        using a by (intro encode_cp_two) (simp_all add: n_def)
      from utf8_encode_cons [OF this ih] show ?thesis
        unfolding s bs Cons by simp
    next
      case three
      with less.prems Cons obtain c1 c2 r s' where bs: "bs' = c1 # c2 # r"
        and c: "is_cont c1" "is_cont c2"
        and cp: "2048 \<le> (n - 224) * 4096 + cont_val c1 * 64 + cont_val c2"
          "\<not> (55296 \<le> (n - 224) * 4096 + cont_val c1 * 64 + cont_val c2
              \<and> (n - 224) * 4096 + cont_val c1 * 64 + cont_val c2 < 57344)"
        and s': "utf8_scan r = Some s'"
        and s: "s = ((n - 224) * 4096 + cont_val c1 * 64 + cont_val c2) # s'"
        by (auto simp: n_def Let_def split: list.splits if_splits)
      have ih: "utf8_encode s' = Inr r"
        using less.hyps [of r s'] s' Cons bs by simp
      note r1 = is_cont_range [OF c(1)] and r2 = is_cont_range [OF c(2)]
      have cpd: "(n - 224) * 4096 + cont_val c1 * 64 + cont_val c2
                   = (n - 224) * 4096 + (of_char c1 - 128) * 64 + (of_char c2 - 128)"
        by (simp add: cont_val_def)
      note a = three_arith [OF three r1 [THEN conjunct1] r1 [THEN conjunct2]
          r2 [THEN conjunct1] r2 [THEN conjunct2] cpd]
      have "encode_cp ((n - 224) * 4096 + cont_val c1 * 64 + cont_val c2) = Some [b, c1, c2]"
        using a cp by (intro encode_cp_three) (simp_all add: n_def)
      from utf8_encode_cons [OF this ih] show ?thesis
        unfolding s bs Cons by simp
    next
      case four
      with less.prems Cons obtain c1 c2 c3 r s' where bs: "bs' = c1 # c2 # c3 # r"
        and c: "is_cont c1" "is_cont c2" "is_cont c3"
        and cp: "65536 \<le> (n - 240) * 262144 + cont_val c1 * 4096 + cont_val c2 * 64 + cont_val c3"
          "(n - 240) * 262144 + cont_val c1 * 4096 + cont_val c2 * 64 + cont_val c3 < 1114112"
        and s': "utf8_scan r = Some s'"
        and s: "s = ((n - 240) * 262144 + cont_val c1 * 4096 + cont_val c2 * 64 + cont_val c3) # s'"
        by (auto simp: n_def Let_def split: list.splits if_splits)
      have ih: "utf8_encode s' = Inr r"
        using less.hyps [of r s'] s' Cons bs by simp
      note r1 = is_cont_range [OF c(1)] and r2 = is_cont_range [OF c(2)]
        and r3 = is_cont_range [OF c(3)]
      have cpd: "(n - 240) * 262144 + cont_val c1 * 4096 + cont_val c2 * 64 + cont_val c3
                   = (n - 240) * 262144 + (of_char c1 - 128) * 4096 + (of_char c2 - 128) * 64
                     + (of_char c3 - 128)"
        by (simp add: cont_val_def)
      note a = four_arith [OF four r1 [THEN conjunct1] r1 [THEN conjunct2]
          r2 [THEN conjunct1] r2 [THEN conjunct2] r3 [THEN conjunct1] r3 [THEN conjunct2] cpd]
      have "encode_cp ((n - 240) * 262144 + cont_val c1 * 4096 + cont_val c2 * 64 + cont_val c3)
              = Some [b, c1, c2, c3]"
        using a cp by (intro encode_cp_four) (simp_all add: n_def)
      from utf8_encode_cons [OF this ih] show ?thesis
        unfolding s bs Cons by simp
    next
      case bad
      with less.prems Cons show ?thesis
        by (auto simp: n_def)
    qed
  qed
qed

lemma utf8_decode_iff: "utf8_decode bs = Inr s \<longleftrightarrow> utf8_encode s = Inr bs"
proof
  assume "utf8_decode bs = Inr s"
  then have "utf8_scan bs = Some s"
    by (simp add: utf8_decode_def split: option.splits)
  then show "utf8_encode s = Inr bs"
    by (rule utf8_encode_scan)
next
  assume "utf8_encode s = Inr bs"
  then have "utf8_scan bs = Some s"
    by (rule utf8_scan_encode)
  then show "utf8_decode bs = Inr s"
    by (simp add: utf8_decode_def)
qed

lemma utf8_decode_invalid:
  "(\<forall>t. utf8_encode t \<noteq> Inr bs) \<Longrightarrow> utf8_decode bs = Inl UnicodeDecodeError"
proof -
  assume no: "\<forall>t. utf8_encode t \<noteq> Inr bs"
  show ?thesis
  proof (cases "utf8_decode bs")
    case (Inl e)
    then show ?thesis
      using utf8_decode_Inl by simp
  next
    case (Inr s)
    with utf8_decode_iff [of bs s] no show ?thesis
      by simp
  qed
qed

section \<open>Payloads are decoded as UTF-8\<close>

text \<open>
  C10. Take a simple string (\<open>+\<close>, a body free of CR, the terminator) and a bulk
  string (\<open>$\<close>, a length field that reads as the number of payload bytes, the
  terminator, the payload, the terminator). When the body or payload is the UTF-8
  encoding of a text, the decoder returns that text, a \<open>str\<close>, not the bytes. When it is
  the encoding of no text at all, that is, when the bytes are not valid UTF-8,
  \<open>_parse\<close> raises UnicodeDecodeError and \<open>parse_redis_response\<close> reports its parse
  failure, although the frame is well-formed on the wire.
\<close>

theorem payloads_decoded_as_utf8:
  assumes "CR \<notin> set body" and "CR \<notin> set ds" and "py_int ds = Inr (int (length payload))"
  shows "(utf8_encode s = Inr body \<longrightarrow>
            parse (Suc depth) (CHR ''+'' # body @ crlf @ rest) 0
              = Inr (PyStr s, int (length body) + 3)
            \<and> parse_redis_response (Suc depth) (Bytes (CHR ''+'' # body @ crlf @ rest))
              = Inr (PyStr s))
    \<and> ((\<forall>t. utf8_encode t \<noteq> Inr body) \<longrightarrow>
            parse (Suc depth) (CHR ''+'' # body @ crlf @ rest) 0 = Inl UnicodeDecodeError
            \<and> parse_redis_response (Suc depth) (Bytes (CHR ''+'' # body @ crlf @ rest))
              = Inl (ParseFailed UnicodeDecodeError (CHR ''+'' # body @ crlf @ rest)))
    \<and> (utf8_encode s' = Inr payload \<longrightarrow>
            parse (Suc depth) (CHR ''$'' # ds @ crlf @ payload @ crlf @ rest) 0
              = Inr (PyStr s', int (length ds) + int (length payload) + 5)
            \<and> parse_redis_response (Suc depth)
                (Bytes (CHR ''$'' # ds @ crlf @ payload @ crlf @ rest))
              = Inr (PyStr s'))
    \<and> ((\<forall>t. utf8_encode t \<noteq> Inr payload) \<longrightarrow>
            parse (Suc depth) (CHR ''$'' # ds @ crlf @ payload @ crlf @ rest) 0
              = Inl UnicodeDecodeError
            \<and> parse_redis_response (Suc depth)
                (Bytes (CHR ''$'' # ds @ crlf @ payload @ crlf @ rest))
              = Inl (ParseFailed UnicodeDecodeError
                      (CHR ''$'' # ds @ crlf @ payload @ crlf @ rest)))"
proof -
  note simple = parse_simple_frame [OF assms(1), of depth rest]
  note bulk = parse_bulk_frame [OF assms(2) assms(3), of depth "crlf @ rest"]
  have a: "parse (Suc depth) (CHR ''+'' # body @ crlf @ rest) 0
              = Inr (PyStr s, int (length body) + 3)
            \<and> parse_redis_response (Suc depth) (Bytes (CHR ''+'' # body @ crlf @ rest))
              = Inr (PyStr s)"
    if "utf8_encode s = Inr body"
  proof -
    from that have "utf8_decode body = Inr s"
      by (simp add: utf8_decode_iff)
    then show ?thesis
      by (simp add: parse_redis_response_def simple)
  qed
  have b: "parse (Suc depth) (CHR ''+'' # body @ crlf @ rest) 0 = Inl UnicodeDecodeError
            \<and> parse_redis_response (Suc depth) (Bytes (CHR ''+'' # body @ crlf @ rest))
              = Inl (ParseFailed UnicodeDecodeError (CHR ''+'' # body @ crlf @ rest))"
    if "\<forall>t. utf8_encode t \<noteq> Inr body"
  proof -
    from that have "utf8_decode body = Inl UnicodeDecodeError"
      by (rule utf8_decode_invalid)
    then show ?thesis
      by (simp add: parse_redis_response_def simple)
  qed
  have c: "parse (Suc depth) (CHR ''$'' # ds @ crlf @ payload @ crlf @ rest) 0
              = Inr (PyStr s', int (length ds) + int (length payload) + 5)
            \<and> parse_redis_response (Suc depth)
                (Bytes (CHR ''$'' # ds @ crlf @ payload @ crlf @ rest))
              = Inr (PyStr s')"
    if "utf8_encode s' = Inr payload"
  proof -
    from that have "utf8_decode payload = Inr s'"
      by (simp add: utf8_decode_iff)
    then show ?thesis
      by (simp add: parse_redis_response_def bulk)
  qed
  have d: "parse (Suc depth) (CHR ''$'' # ds @ crlf @ payload @ crlf @ rest) 0
              = Inl UnicodeDecodeError
            \<and> parse_redis_response (Suc depth)
                (Bytes (CHR ''$'' # ds @ crlf @ payload @ crlf @ rest))
              = Inl (ParseFailed UnicodeDecodeError
                      (CHR ''$'' # ds @ crlf @ payload @ crlf @ rest))"
    if "\<forall>t. utf8_encode t \<noteq> Inr payload"
  proof -
    from that have "utf8_decode payload = Inl UnicodeDecodeError"
      by (rule utf8_decode_invalid)
    then show ?thesis
      by (simp add: parse_redis_response_def bulk)
  qed
  from a b c d show ?thesis by blast
qed

text \<open>
  The theorem at work. Text: the euro sign U+20AC as a simple string (three bytes),
  and U+00E9 followed by U+1F600 as a bulk string (two and four bytes). No text: the
  byte FF as a simple string, and the encoding of the surrogate U+D800 as a bulk
  string.
\<close>

theorem payloads_decoded_as_utf8_witness:
  "parse (Suc 0) (CHR ''+'' # [CHR 0xE2, CHR 0x82, CHR 0xAC] @ crlf @ []) 0
       = Inr (PyStr [8364], 6)
   \<and> parse_redis_response (Suc 0) (Bytes (CHR ''+'' # [CHR 0xE2, CHR 0x82, CHR 0xAC] @ crlf @ []))
       = Inr (PyStr [8364])
   \<and> parse (Suc 0)
         (CHR ''$'' # ''6'' @ crlf @ [CHR 0xC3, CHR 0xA9, CHR 0xF0, CHR 0x9F, CHR 0x98, CHR 0x80]
          @ crlf @ []) 0
       = Inr (PyStr [233, 128512], 12)
   \<and> parse_redis_response (Suc 0)
         (Bytes (CHR ''$'' # ''6'' @ crlf
                 @ [CHR 0xC3, CHR 0xA9, CHR 0xF0, CHR 0x9F, CHR 0x98, CHR 0x80] @ crlf @ []))
       = Inr (PyStr [233, 128512])
   \<and> parse (Suc 0) (CHR ''+'' # [CHR 0xFF] @ crlf @ []) 0 = Inl UnicodeDecodeError
   \<and> parse_redis_response (Suc 0) (Bytes (CHR ''+'' # [CHR 0xFF] @ crlf @ []))
       = Inl (ParseFailed UnicodeDecodeError (CHR ''+'' # [CHR 0xFF] @ crlf @ []))
   \<and> parse (Suc 0) (CHR ''$'' # ''3'' @ crlf @ [CHR 0xED, CHR 0xA0, CHR 0x80] @ crlf @ []) 0
       = Inl UnicodeDecodeError
   \<and> parse_redis_response (Suc 0)
         (Bytes (CHR ''$'' # ''3'' @ crlf @ [CHR 0xED, CHR 0xA0, CHR 0x80] @ crlf @ []))
       = Inl (ParseFailed UnicodeDecodeError
               (CHR ''$'' # ''3'' @ crlf @ [CHR 0xED, CHR 0xA0, CHR 0x80] @ crlf @ []))"
proof -
  let ?euro = "[CHR 0xE2, CHR 0x82, CHR 0xAC]"
  let ?two = "[CHR 0xC3, CHR 0xA9, CHR 0xF0, CHR 0x9F, CHR 0x98, CHR 0x80]"
  let ?sur = "[CHR 0xED, CHR 0xA0, CHR 0x80]"
  have cr: "CR \<notin> set ?euro" "CR \<notin> set [CHR 0xFF]" "CR \<notin> set ''6''" "CR \<notin> set ''3''"
    by (simp_all add: CR_def)
  have six: "py_int ''6'' = Inr (int (length ?two))"
    by (simp add: py_int_def is_space_def is_digit_def digit_val_def max_str_digits_def)
  have three: "py_int ''3'' = Inr (int (length ?sur))"
    by (simp add: py_int_def is_space_def is_digit_def digit_val_def max_str_digits_def)
  have e1: "utf8_encode [8364] = Inr ?euro"
    by (simp add: encode_cp_def char_of_def bit_0)
  have e2: "utf8_encode [233, 128512] = Inr ?two"
    by (simp add: encode_cp_def char_of_def bit_0)
  have n1: "\<forall>t. utf8_encode t \<noteq> Inr [CHR 0xFF]"
  proof (intro allI notI)
    fix t assume "utf8_encode t = Inr [CHR 0xFF]"
    then have "utf8_scan [CHR 0xFF] = Some t" by (rule utf8_scan_encode)
    then show False by simp
  qed
  have n2: "\<forall>t. utf8_encode t \<noteq> Inr ?sur"
  proof (intro allI notI)
    fix t assume "utf8_encode t = Inr ?sur"
    then have "utf8_scan ?sur = Some t" by (rule utf8_scan_encode)
    then show False by (simp add: is_cont_def cont_val_def)
  qed
  from payloads_decoded_as_utf8 [OF cr(1) cr(3) six, of "[8364]" 0 "[]" "[233, 128512]"] e1 e2
  have good: "parse (Suc 0) (CHR ''+'' # ?euro @ crlf @ []) 0 = Inr (PyStr [8364], 6)
     \<and> parse_redis_response (Suc 0) (Bytes (CHR ''+'' # ?euro @ crlf @ [])) = Inr (PyStr [8364])
     \<and> parse (Suc 0) (CHR ''$'' # ''6'' @ crlf @ ?two @ crlf @ []) 0
         = Inr (PyStr [233, 128512], 12)
     \<and> parse_redis_response (Suc 0) (Bytes (CHR ''$'' # ''6'' @ crlf @ ?two @ crlf @ []))
         = Inr (PyStr [233, 128512])"
    by simp
  from payloads_decoded_as_utf8 [OF cr(2) cr(4) three, of _ 0 "[]"] n1 n2
  have bad: "parse (Suc 0) (CHR ''+'' # [CHR 0xFF] @ crlf @ []) 0 = Inl UnicodeDecodeError
     \<and> parse_redis_response (Suc 0) (Bytes (CHR ''+'' # [CHR 0xFF] @ crlf @ []))
         = Inl (ParseFailed UnicodeDecodeError (CHR ''+'' # [CHR 0xFF] @ crlf @ []))
     \<and> parse (Suc 0) (CHR ''$'' # ''3'' @ crlf @ ?sur @ crlf @ []) 0 = Inl UnicodeDecodeError
     \<and> parse_redis_response (Suc 0) (Bytes (CHR ''$'' # ''3'' @ crlf @ ?sur @ crlf @ []))
         = Inl (ParseFailed UnicodeDecodeError (CHR ''$'' # ''3'' @ crlf @ ?sur @ crlf @ []))"
    by blast
  from good bad show ?thesis by blast
qed

section \<open>Encoding and decoding again\<close>

subsection \<open>Decimal length fields\<close>

lemma show_nat_range: "c \<in> set (show_nat n) \<Longrightarrow> 48 \<le> c \<and> c \<le> 57"
proof (induction n arbitrary: c rule: show_nat.induct)
  case (1 n)
  show ?case
  proof (cases "n < 10")
    case True
    with "1.prems" show ?thesis
      by (subst (asm) show_nat.simps) simp
  next
    case False
    with "1.prems" have "c \<in> set (show_nat (n div 10)) \<or> c = 48 + n mod 10"
      by (subst (asm) show_nat.simps) auto
    then show ?thesis
    proof
      assume "c \<in> set (show_nat (n div 10))"
      with "1.IH" False show ?thesis by simp
    next
      assume "c = 48 + n mod 10"
      moreover have "n mod 10 < 10" by simp
      ultimately show ?thesis by linarith
    qed
  qed
qed

lemma show_nat_nonempty: "show_nat n \<noteq> []"
  by (subst show_nat.simps) simp

lemma digit_char: "48 \<le> c \<Longrightarrow> c \<le> 57 \<Longrightarrow> is_digit (char_of (c::nat)) \<and> digit_val (char_of c) = c - 48"
  by (simp add: is_digit_def digit_val_def)

lemma dec_val_append: "dec_val acc (xs @ ys) = dec_val (dec_val acc xs) ys"
  by (induction xs arbitrary: acc) simp_all

lemma dec_val_show_nat: "dec_val 0 (show_nat n) = n"
proof (induction n rule: show_nat.induct)
  case (1 n)
  show ?case
  proof (cases "n < 10")
    case True
    then show ?thesis by (subst show_nat.simps) simp
  next
    case False
    with "1.IH" have "dec_val 0 (show_nat (n div 10)) = n div 10" by simp
    with False show ?thesis
      by (subst show_nat.simps) (simp add: dec_val_append)
  qed
qed

lemma scan_digits_all:
  "\<forall>c\<in>set cs. 48 \<le> c \<and> c \<le> 57 \<Longrightarrow>
   scan_digits k acc (map char_of cs) = Some (k + length cs, dec_val acc cs, [])"
  by (induction cs arbitrary: k acc) (simp_all add: digit_char)

lemma length_show_nat: "n < 10 ^ k \<Longrightarrow> 0 < k \<Longrightarrow> length (show_nat n) \<le> k"
proof (induction n arbitrary: k rule: show_nat.induct)
  case (1 n)
  show ?case
  proof (cases "n < 10")
    case True
    with "1.prems" show ?thesis
      by (subst show_nat.simps) simp
  next
    case False
    obtain j where k: "k = Suc j"
      using "1.prems"(2) by (cases k) auto
    have j: "0 < j"
    proof (rule ccontr)
      assume "\<not> 0 < j"
      with k "1.prems"(1) False show False by simp
    qed
    have "n div 10 < 10 ^ j"
      using "1.prems"(1) k by (simp add: less_mult_imp_div_less mult.commute)
    with "1.IH" [of j] False j have "length (show_nat (n div 10)) \<le> j"
      by simp
    with False k show ?thesis
      by (subst show_nat.simps) simp
  qed
qed

lemma small_below_limit: "n < 10 \<Longrightarrow> (n::nat) < 10 ^ max_str_digits"
proof -
  assume "n < 10"
  moreover have "(10::nat) \<le> 10 ^ max_str_digits"
    by (rule self_le_power) (simp_all add: max_str_digits_def)
  ultimately show ?thesis by linarith
qed

lemma digit_not_space: "48 \<le> c \<Longrightarrow> c \<le> 57 \<Longrightarrow> \<not> is_space (char_of (c::nat))"
proof -
  assume a: "48 \<le> c" "c \<le> 57"
  have "(of_char (char_of c :: char) :: nat) = c"
    using a by simp
  moreover have "is_space x \<Longrightarrow> (of_char x :: nat) < 48" for x
    by (auto simp: is_space_def)
  ultimately show ?thesis
    using a by fastforce
qed

lemma digit_not_sign:
  assumes "48 \<le> c" "c \<le> 57"
  shows "char_of (c::nat) \<noteq> CHR ''-'' \<and> char_of c \<noteq> CHR ''+'' \<and> char_of c \<noteq> CR"
proof -
  have oc: "(of_char (char_of c :: char) :: nat) = c"
    using assms by simp
  have ne: "(of_char x :: nat) \<noteq> c \<Longrightarrow> char_of c \<noteq> x" for x :: char
    using oc by auto
  have "char_of c \<noteq> CHR ''-''"
    by (rule ne) (use assms in simp)
  moreover have "char_of c \<noteq> CHR ''+''"
    by (rule ne) (use assms in simp)
  moreover have "char_of c \<noteq> CR"
    by (rule ne) (use assms in \<open>simp add: CR_def\<close>)
  ultimately show ?thesis by simp
qed

lemma py_int_digits:
  assumes "n < 10 ^ max_str_digits"
  shows "py_int (digits n) = Inr (int n)"
proof -
  have lim: "length (show_nat n) \<le> max_str_digits"
    using assms by (rule length_show_nat) (simp add: max_str_digits_def)
  obtain c cs where sn: "show_nat n = c # cs"
    using show_nat_nonempty [of n] by (cases "show_nat n") auto
  have rng: "\<forall>x\<in>set (c # cs). 48 \<le> x \<and> x \<le> 57"
    using show_nat_range [of _ n] sn by auto
  then have c: "48 \<le> c" "c \<le> 57" and cs: "\<forall>x\<in>set cs. 48 \<le> x \<and> x \<le> 57"
    by auto
  have val: "dec_val (c - 48) cs = n"
    using dec_val_show_nat [of n] sn by simp
  have cnt: "\<not> max_str_digits < 1 + length cs"
    using lim sn by simp
  show ?thesis
    unfolding digits_def sn py_int_def
    using digit_char [OF c] digit_not_space [OF c] digit_not_sign [OF c]
      scan_digits_all [OF cs, of 1 "c - 48"] val cnt
    by (simp add: Let_def)
qed

lemma CR_notin_digits: "CR \<notin> set (digits n)"
proof
  assume "CR \<in> set (digits n)"
  then obtain c where "c \<in> set (show_nat n)" "CR = char_of c"
    by (auto simp: digits_def)
  with show_nat_range [of c n] digit_not_sign [of c] show False
    by auto
qed

subsection \<open>The encoder on ASCII text\<close>

lemma utf8_encode_ascii:
  "\<forall>c\<in>set s. c < 128 \<Longrightarrow> utf8_encode s = Inr (map char_of s)"
  by (induction s) (simp_all add: encode_cp_def)

lemma utf8_scan_ascii:
  "\<forall>c\<in>set s. c < 128 \<Longrightarrow> utf8_scan (map char_of s) = Some s"
  by (induction s) simp_all

lemma utf8_decode_ascii:
  "\<forall>c\<in>set s. c < 128 \<Longrightarrow> utf8_decode (map char_of s) = Inr s"
  by (simp add: utf8_decode_def utf8_scan_ascii)

lemma foldl_append_concat:
  "foldl (\<lambda>protocol part. protocol @ f part) a xs = a @ concat (map f xs)"
  by (induction xs arbitrary: a) simp_all

lemma py_upper_ascii:
  "\<forall>c\<in>set s. c < 128 \<Longrightarrow> \<forall>c\<in>set (py_upper uc s). c < 128"
  by (induction s) (auto simp: py_upper_def)

lemma length_py_upper_ascii:
  "\<forall>c\<in>set s. c < 128 \<Longrightarrow> length (py_upper uc s) = length s"
  by (induction s) (simp_all add: py_upper_def)

lemma show_nat_ascii: "\<forall>c\<in>set (show_nat n). c < 128"
  using show_nat_range [of _ n] by fastforce

lemma render_part_ascii:
  "\<forall>c\<in>set p. c < 128 \<Longrightarrow> \<forall>c\<in>set (render_part p). c < 128"
  using show_nat_ascii [of "length p"]
  by (auto simp: render_part_def ascii_def CR_def LF_def)

lemma map_char_of_ascii: "map char_of (ascii s) = s"
  by (induction s) (simp_all add: ascii_def)

lemma render_part_bytes: "map char_of (render_part p) = wire_part p"
  by (simp add: render_part_def wire_part_def digits_def map_char_of_ascii crlf_def)

lemma build_resp_command_ascii:
  assumes "\<forall>c\<in>set command. c < 128" and "\<forall>a\<in>set args. \<forall>c\<in>set a. c < 128"
  shows "build_resp_command uc command args =
           Inr (CHR ''*'' # digits (Suc (length args)) @ crlf
                @ concat (map wire_part (py_upper uc command # args)))"
proof -
  let ?parts = "py_upper uc command # args"
  have parts: "\<forall>p\<in>set ?parts. \<forall>c\<in>set p. c < 128"
    using py_upper_ascii [OF assms(1), of uc] assms(2) by simp
  have proto: "build_protocol uc command args =
      (ascii ''*'' @ show_nat (Suc (length args)) @ ascii [CR, LF]) @ concat (map render_part ?parts)"
    by (simp add: build_protocol_def foldl_append_concat)
  have body_ascii: "\<forall>c\<in>set (concat (map render_part ?parts)). c < 128"
    using parts render_part_ascii by fastforce
  have all: "\<forall>c\<in>set (build_protocol uc command args). c < 128"
    unfolding proto using body_ascii show_nat_ascii [of "Suc (length args)"]
    by (auto simp: ascii_def CR_def LF_def)
  have "map char_of (build_protocol uc command args) =
      CHR ''*'' # digits (Suc (length args)) @ crlf @ concat (map wire_part ?parts)"
    unfolding proto
    by (simp add: map_concat comp_def render_part_bytes digits_def map_char_of_ascii crlf_def)
  with utf8_encode_ascii [OF all] show ?thesis
    by (simp add: build_resp_command_def)
qed

subsection \<open>The decoder on the encoder's output\<close>

lemma length_wire_part:
  "int (length (wire_part p)) = int (length (digits (length p))) + int (length p) + 5"
  by (simp add: wire_part_def crlf_def)

lemma parse_wire_part:
  assumes "\<forall>c\<in>set p. c < 128" and "i = int (length pre)"
    and "length p < 10 ^ max_str_digits"
  shows "parse (Suc depth) (pre @ wire_part p @ rest) i
           = Inr (PyStr p, i + int (length (wire_part p)))"
proof -
  have len: "py_int (digits (length p)) = Inr (int (length (map char_of p :: bytes)))"
    using py_int_digits [OF assms(3)] by simp
  have buf: "pre @ wire_part p @ rest
      = pre @ CHR ''$'' # digits (length p) @ crlf @ map char_of p @ (crlf @ rest)"
    by (simp add: wire_part_def)
  show ?thesis
    unfolding buf length_wire_part
    using parse_bulk_at [OF CR_notin_digits len assms(2), of depth "crlf @ rest"]
      utf8_decode_ascii [OF assms(1)]
    by simp
qed

lemma parse_elements_wire:
  assumes "\<forall>p\<in>set ps. \<forall>c\<in>set p. c < 128" and "i = int (length pre)"
    and "\<forall>p\<in>set ps. length p < 10 ^ max_str_digits"
  shows "parse_elements (parse (Suc depth) (pre @ concat (map wire_part ps) @ rest))
           (length ps) i acc
         = Inr (acc @ map PyStr ps, i + int (length (concat (map wire_part ps))))"
  using assms
proof (induction ps arbitrary: pre i acc)
  case Nil
  then show ?case by simp
next
  case (Cons p ps)
  let ?buf = "pre @ concat (map wire_part (p # ps)) @ rest"
  have buf1: "?buf = pre @ wire_part p @ (concat (map wire_part ps) @ rest)"
    by simp
  have buf2: "?buf = (pre @ wire_part p) @ concat (map wire_part ps) @ rest"
    by simp
  have p: "\<forall>c\<in>set p. c < 128" and ps: "\<forall>q\<in>set ps. \<forall>c\<in>set q. c < 128"
    using Cons.prems(1) by simp_all
  have lp: "length p < 10 ^ max_str_digits"
    and lps: "\<forall>q\<in>set ps. length q < 10 ^ max_str_digits"
    using Cons.prems(3) by simp_all
  have first: "parse (Suc depth) ?buf i = Inr (PyStr p, i + int (length (wire_part p)))"
    unfolding buf1 using p Cons.prems(2) lp by (rule parse_wire_part)
  have next_i: "i + int (length (wire_part p)) = int (length (pre @ wire_part p))"
    using Cons.prems(2) by simp
  have rest: "parse_elements (parse (Suc depth) ?buf) (length ps)
                (i + int (length (wire_part p))) (acc @ [PyStr p])
              = Inr ((acc @ [PyStr p]) @ map PyStr ps,
                     i + int (length (wire_part p)) + int (length (concat (map wire_part ps))))"
    unfolding buf2 using ps next_i lps by (rule Cons.IH)
  show ?case
    using first rest by simp
qed

lemma parse_array_frame:
  assumes "CR \<notin> set ds" and "py_int ds = Inr count"
  shows "parse (Suc depth) (CHR ''*'' # ds @ crlf @ rest) 0 =
           (case parse_elements (parse depth (CHR ''*'' # ds @ crlf @ rest)) (nat count)
                   (int (length ds) + 3) [] of
              Inl e \<Rightarrow> Inl e
            | Inr (elements, idx) \<Rightarrow> Inr (PyList elements, idx))"
proof -
  have three: "0 + 1 + int (length ds) + 2 = int (length ds) + 3"
    by simp
  show ?thesis
    using line_at [where bs = ds and i = 0 and pre = "[]" and c = "CHR ''*''" and rest = rest,
        OF assms(1)] assms(2)
    by (subst parse.simps) (simp add: three add.commute)
qed

text \<open>
  C3, as the code has it. For every command name and every list of argument strings
  made of ASCII characters (the empty string included), whose lengths have no more
  decimal digits than \<open>int\<close> accepts (as the length of every Python string and list
  has), the encoder succeeds, and
  decoding its output from offset 0 yields the list of strings
  \<open>[command.upper()] + args\<close>, consuming the output to its last byte: the encoder turns
  the command into upper case and leaves the arguments as they are.
\<close>

theorem roundtrip_upper_cased:
  assumes "\<forall>c\<in>set command. c < 128" and "\<forall>a\<in>set args. \<forall>c\<in>set a. c < 128"
    and "length command < 10 ^ max_str_digits"
    and "\<forall>a\<in>set args. length a < 10 ^ max_str_digits"
    and "Suc (length args) < 10 ^ max_str_digits"
  shows "\<exists>wire. build_resp_command uc command args = Inr wire
           \<and> parse (Suc (Suc depth)) wire 0
               = Inr (PyList (map PyStr (py_upper uc command # args)), int (length wire))"
proof -
  let ?parts = "py_upper uc command # args"
  let ?ds = "digits (Suc (length args))"
  let ?wire = "CHR ''*'' # ?ds @ crlf @ concat (map wire_part ?parts)"
  have enc: "build_resp_command uc command args = Inr ?wire"
    using assms(1,2) by (rule build_resp_command_ascii)
  have parts: "\<forall>p\<in>set ?parts. \<forall>c\<in>set p. c < 128"
    using py_upper_ascii [OF assms(1), of uc] assms(2) by simp
  have lens: "\<forall>p\<in>set ?parts. length p < 10 ^ max_str_digits"
    using length_py_upper_ascii [OF assms(1), of uc] assms(3,4) by simp
  have buf: "?wire = (CHR ''*'' # ?ds @ crlf) @ concat (map wire_part ?parts) @ []"
    by simp
  have start: "int (length ?ds) + 3 = int (length (CHR ''*'' # ?ds @ crlf))"
    by (simp add: crlf_def)
  have elems: "parse_elements (parse (Suc depth) ?wire) (length ?parts)
                 (int (length ?ds) + 3) []
               = Inr ([] @ map PyStr ?parts,
                      int (length ?ds) + 3 + int (length (concat (map wire_part ?parts))))"
    by (subst (1) buf) (rule parse_elements_wire [OF parts start lens])
  have count: "py_int ?ds = Inr (int (length ?parts))"
    using py_int_digits [OF assms(5)] by simp
  have total: "int (length ?ds) + 3 + int (length (concat (map wire_part ?parts)))
                 = int (length ?wire)"
    by (simp add: crlf_def)
  have "parse (Suc (Suc depth)) ?wire 0 = Inr (PyList (map PyStr ?parts), int (length ?wire))"
    unfolding parse_array_frame [OF CR_notin_digits count] nat_int elems total [symmetric]
    by simp
  with enc show ?thesis by blast
qed

theorem roundtrip_upper_cased_witness:
  "build_resp_command uc_unchanged (ascii ''set'') [ascii ''k'', []]
       = Inr (''*3'' @ crlf @ ''$3'' @ crlf @ ''SET'' @ crlf @ ''$1'' @ crlf @ ''k'' @ crlf
              @ ''$0'' @ crlf @ crlf)
   \<and> parse (Suc (Suc 0))
         (''*3'' @ crlf @ ''$3'' @ crlf @ ''SET'' @ crlf @ ''$1'' @ crlf @ ''k'' @ crlf
          @ ''$0'' @ crlf @ crlf) 0
       = Inr (PyList [PyStr (ascii ''SET''), PyStr (ascii ''k''), PyStr []], 26)"
proof -
  let ?W = "''*3'' @ crlf @ ''$3'' @ crlf @ ''SET'' @ crlf @ ''$1'' @ crlf @ ''k'' @ crlf
            @ ''$0'' @ crlf @ crlf"
  have h1: "\<forall>c\<in>set (ascii ''set''). c < 128"
    by (simp add: ascii_def)
  have h2: "\<forall>a\<in>set [ascii ''k'', []]. \<forall>c\<in>set a. c < 128"
    by (simp add: ascii_def)
  have enc: "build_resp_command uc_unchanged (ascii ''set'') [ascii ''k'', []] = Inr ?W"
    by (simp add: eval_defs build_resp_command_def build_protocol_def
        render_part_def py_upper_def show_nat.simps encode_cp_def char_of_def bit_0)
  have up: "py_upper uc_unchanged (ascii ''set'') = ascii ''SET''"
    by (simp add: py_upper_def ascii_def)
  have len: "int (length ?W) = 26"
    by (simp add: crlf_def)
  have h3: "length (ascii ''set'') < 10 ^ max_str_digits"
    by (rule small_below_limit) (simp add: ascii_def)
  have h4: "\<forall>a\<in>set [ascii ''k'', []]. length a < 10 ^ max_str_digits"
    using small_below_limit [of 1] small_below_limit [of 0] by (simp add: ascii_def)
  have h5: "Suc (length [ascii ''k'', []]) < 10 ^ max_str_digits"
    by (rule small_below_limit) simp
  from roundtrip_upper_cased [OF h1 h2 h3 h4 h5, of uc_unchanged 0] obtain wire where
    w: "build_resp_command uc_unchanged (ascii ''set'') [ascii ''k'', []] = Inr wire"
    and p: "parse (Suc (Suc 0)) wire 0
       = Inr (PyList (map PyStr (py_upper uc_unchanged (ascii ''set'') # [ascii ''k'', []])),
              int (length wire))"
    by blast
  from w enc have "wire = ?W" by simp
  with p up len have "parse (Suc (Suc 0)) ?W 0
       = Inr (PyList [PyStr (ascii ''SET''), PyStr (ascii ''k''), PyStr []], 26)"
    by simp
  with enc show ?thesis by blast
qed

lemma lower_case_example:
  "build_resp_command uc (ascii ''set'') [] = Inr (''*1'' @ crlf @ ''$3'' @ crlf @ ''SET'' @ crlf)
   \<and> parse (Suc (Suc d)) (''*1'' @ crlf @ ''$3'' @ crlf @ ''SET'' @ crlf) 0
       = Inr (PyList [PyStr (ascii ''SET'')], 13)
   \<and> PyList [PyStr (ascii ''SET'')] \<noteq> PyList (map PyStr (ascii ''set'' # []))"
  by (simp add: parse_elements_unfold eval_defs build_resp_command_def build_protocol_def
      render_part_def py_upper_def show_nat.simps encode_cp_def char_of_def bit_0)

text \<open>
  The claim as stated fails: for the command \<open>set\<close> without arguments the encoder
  writes \<open>SET\<close>, and decoding gives \<open>['SET']\<close>, which is not \<open>['set']\<close>.
\<close>

theorem encoder_upper_cases_command:
  "build_resp_command uc_unchanged (ascii ''set'') []
     = Inr (''*1'' @ crlf @ ''$3'' @ crlf @ ''SET'' @ crlf)
   \<and> parse 1000 (''*1'' @ crlf @ ''$3'' @ crlf @ ''SET'' @ crlf) 0
       = Inr (PyList [PyStr (ascii ''SET'')], 13)
   \<and> PyList [PyStr (ascii ''SET'')] \<noteq> PyList (map PyStr (ascii ''set'' # []))"
  using lower_case_example [of uc_unchanged 998] by simp

end
